theory Spec2Isabelle
  imports Main "HOL-Library.Sublist" "HOL-Library.AList"
begin

section \<open>Text primitives of the Python runtime\<close>

text \<open>
  Page text is a HOL \<open>string\<close>: a list of characters with code points 0 to 255. The
  character classes below are those of Python 3 on that range: \<open>str.isspace\<close> (also
  the regular expression class \<open>\s\<close>), \<open>\d\<close>, \<open>\w\<close> and \<open>str.lower\<close>.
\<close>

definition is_space :: "char \<Rightarrow> bool" where
  "is_space c = (let n = (of_char c :: nat)
     in (9 \<le> n \<and> n \<le> 13) \<or> (28 \<le> n \<and> n \<le> 32) \<or> n = 133 \<or> n = 160)"

definition is_digit :: "char \<Rightarrow> bool" where
  "is_digit c = (let n = (of_char c :: nat) in 48 \<le> n \<and> n \<le> 57)"

definition is_ascii_letter :: "char \<Rightarrow> bool" where
  "is_ascii_letter c = (let n = (of_char c :: nat)
     in (65 \<le> n \<and> n \<le> 90) \<or> (97 \<le> n \<and> n \<le> 122))"

definition is_word :: "char \<Rightarrow> bool" where
  "is_word c = (let n = (of_char c :: nat)
     in is_ascii_letter c \<or> is_digit c \<or> c = CHR ''_'' \<or>
        n \<in> set [170, 178, 179, 181, 185, 186, 188, 189, 190] \<or>
        (192 \<le> n \<and> n \<le> 214) \<or> (216 \<le> n \<and> n \<le> 246) \<or> (248 \<le> n \<and> n \<le> 255))"

definition lower_char :: "char \<Rightarrow> char" where
  "lower_char c = (let n = (of_char c :: nat)
     in if (65 \<le> n \<and> n \<le> 90) \<or> (192 \<le> n \<and> n \<le> 222 \<and> n \<noteq> 215)
        then char_of (n + 32) else c)"

text \<open>\<open>s.lower()\<close>, \<open>s.strip()\<close>, \<open>p in s\<close> and \<open>s.replace(x, "")\<close> for a one-character \<open>x\<close>.\<close>

definition lower :: "string \<Rightarrow> string" where
  "lower s = map lower_char s"

definition strip :: "string \<Rightarrow> string" where
  "strip s = rev (dropWhile is_space (rev (dropWhile is_space s)))"

fun str_in :: "string \<Rightarrow> string \<Rightarrow> bool" where
  "str_in p [] = (p = [])"
| "str_in p (c # cs) = (prefix p (c # cs) \<or> str_in p cs)"

definition remove_char :: "char \<Rightarrow> string \<Rightarrow> string" where
  "remove_char x s = filter (\<lambda>c. c \<noteq> x) s"

text \<open>\<open>s.split('.')\<close>: the pieces between the dots, empty pieces included.\<close>

fun split_dot :: "string \<Rightarrow> string list" where
  "split_dot [] = [[]]"
| "split_dot (c # cs) =
     (if c = CHR ''.'' then [] # split_dot cs
      else (case split_dot cs of [] \<Rightarrow> [[c]] | x # xs \<Rightarrow> (c # x) # xs))"

text \<open>
  The declarative reading of a case-insensitive occurrence: some substring of \<open>s\<close> equals
  \<open>p\<close> up to case.
\<close>

definition occurs_ci :: "string \<Rightarrow> string \<Rightarrow> bool" where
  "occurs_ci p s = (\<exists>u w v. s = u @ w @ v \<and> lower w = lower p)"

section \<open>Regular expressions of the \<open>re\<close> module\<close>

text \<open>
  The three patterns of \<open>extract_information\<close> use character classes with greedy bounded
  repetition, optional groups, concatenation and the word boundary \<open>\b\<close>. \<open>ms r (prev, s)\<close>
  lists the ways \<open>r\<close> can match a prefix of \<open>s\<close>, in the order a backtracking matcher tries
  them (greedy first); each result is the last character before the rest and the rest.
  \<open>prev\<close> is the character before \<open>s\<close>, which \<open>\b\<close> looks at.
\<close>

datatype rx = Eps | Rep "char \<Rightarrow> bool" nat "nat option" | WordB | Seq rx rx | Opt rx

fun rep :: "(char \<Rightarrow> bool) \<Rightarrow> nat \<Rightarrow> nat option \<Rightarrow> char option \<Rightarrow> string
    \<Rightarrow> (char option \<times> string) list" where
  "rep P lo hi prev [] = (if lo = 0 then [(prev, [])] else [])"
| "rep P lo hi prev (c # cs) =
     (if P c \<and> hi \<noteq> Some 0
      then rep P (lo - 1) (map_option (\<lambda>h. h - 1) hi) (Some c) cs else [])
     @ (if lo = 0 then [(prev, c # cs)] else [])"

definition at_boundary :: "char option \<Rightarrow> string \<Rightarrow> bool" where
  "at_boundary prev s =
     ((case prev of None \<Rightarrow> False | Some c \<Rightarrow> is_word c)
       \<noteq> (case s of [] \<Rightarrow> False | c # _ \<Rightarrow> is_word c))"

fun ms :: "rx \<Rightarrow> char option \<times> string \<Rightarrow> (char option \<times> string) list" where
  "ms Eps x = [x]"
| "ms (Rep P lo hi) x = rep P lo hi (fst x) (snd x)"
| "ms WordB x = (if at_boundary (fst x) (snd x) then [x] else [])"
| "ms (Seq a b) x = concat (map (ms b) (ms a x))"
| "ms (Opt a) x = ms a x @ [x]"

definition match_len :: "rx \<Rightarrow> char option \<Rightarrow> string \<Rightarrow> nat option" where
  "match_len r prev s =
     (case ms r (prev, s) of [] \<Rightarrow> None | y # _ \<Rightarrow> Some (length s - length (snd y)))"

text \<open>
  \<open>re.findall\<close> for a pattern without capturing groups: the non-overlapping matches from
  left to right. \<open>skip\<close> counts the characters still covered by the last match.
\<close>

fun scan :: "rx \<Rightarrow> nat \<Rightarrow> char option \<Rightarrow> string \<Rightarrow> string list" where
  "scan r skip prev [] = []"
| "scan r skip prev (c # cs) =
     (if 0 < skip then scan r (skip - 1) (Some c) cs
      else (case match_len r prev (c # cs) of
              None \<Rightarrow> scan r 0 (Some c) cs
            | Some n \<Rightarrow> take n (c # cs) # scan r (n - 1) (Some c) cs))"

definition findall :: "rx \<Rightarrow> string \<Rightarrow> string list" where
  "findall r s = scan r 0 None s"

fun seqs :: "rx list \<Rightarrow> rx" where
  "seqs [] = Eps"
| "seqs [r] = r"
| "seqs (r # rs) = Seq r (seqs rs)"

definition chr :: "char \<Rightarrow> rx" where
  "chr x = Rep (\<lambda>c. c = x) 1 (Some 1)"

text \<open>A letter under \<open>re.I\<close>.\<close>

definition chr_i :: "char \<Rightarrow> rx" where
  "chr_i x = Rep (\<lambda>c. lower_char c = x) 1 (Some 1)"

definition is_sep :: "char \<Rightarrow> bool" where
  "is_sep c = (c = CHR ''-'' \<or> c = CHR ''.'' \<or> is_space c)"

text \<open>\<^verbatim>\<open>\b[A-Za-z0-9._%+-]+@[A-Za-z0-9.-]+\.[A-Za-z]{2,}\b\<close>\<close>

definition email_pattern :: rx where
  "email_pattern = seqs [WordB,
     Rep (\<lambda>c. is_ascii_letter c \<or> is_digit c \<or> c \<in> set ''._%+-'') 1 None,
     chr CHR ''@'',
     Rep (\<lambda>c. is_ascii_letter c \<or> is_digit c \<or> c \<in> set ''.-'') 1 None,
     chr CHR ''.'',
     Rep is_ascii_letter 2 None,
     WordB]"

text \<open>\<^verbatim>\<open>\b(?:\+?\d{1,3})?[-.\s]?(?:\(?\d{1,4}\)?[-.\s]?)?\d{1,4}[-.\s]?\d{1,4}[-.\s]?\d{1,9}\b\<close>\<close>

definition phone_pattern :: rx where
  "phone_pattern = seqs [WordB,
     Opt (seqs [Opt (chr CHR ''+''), Rep is_digit 1 (Some 3)]),
     Opt (Rep is_sep 1 (Some 1)),
     Opt (seqs [Opt (chr CHR ''(''), Rep is_digit 1 (Some 4), Opt (chr CHR '')''),
                Opt (Rep is_sep 1 (Some 1))]),
     Rep is_digit 1 (Some 4),
     Opt (Rep is_sep 1 (Some 1)),
     Rep is_digit 1 (Some 4),
     Opt (Rep is_sep 1 (Some 1)),
     Rep is_digit 1 (Some 9),
     WordB]"

text \<open>\<^verbatim>\<open>[^.!?]*\bmission\b[^.!?]*[.!?]\<close> with \<open>flags=re.I\<close>\<close>

definition mission_pattern :: rx where
  "mission_pattern = seqs [Rep (\<lambda>c. c \<notin> set ''.!?'') 0 None,
     WordB, seqs (map chr_i ''mission''), WordB,
     Rep (\<lambda>c. c \<notin> set ''.!?'') 0 None,
     Rep (\<lambda>c. c \<in> set ''.!?'') 1 (Some 1)]"

section \<open>Sentence filter and cause classifier\<close>

definition common_invalid_phrases :: "string list" where
  "common_invalid_phrases =
     [''learn more'', ''read more'', ''current coalitions'', ''details'', ''overview'',
      ''404'', ''page not found'', ''error'', ''not available'']"

definition filter_valid_sentence :: "string \<Rightarrow> nat \<Rightarrow> nat \<Rightarrow> bool" where
  "filter_valid_sentence sentence min_length max_length =
     (if length (strip sentence) < min_length \<or> length (strip sentence) > max_length
      then False
      else if list_ex (\<lambda>phrase. str_in phrase (lower sentence)) common_invalid_phrases
      then False
      else True)"

text \<open>
  \<open>collections.Counter\<close>: a dictionary in insertion order. Reading a missing key gives 0
  and inserts nothing; storing a new key appends it, storing an old key keeps its place.
\<close>

type_synonym counter = "(string \<times> int) list"

definition counter_get :: "counter \<Rightarrow> string \<Rightarrow> int" where
  "counter_get kc k = (case map_of kc k of None \<Rightarrow> 0 | Some v \<Rightarrow> v)"

definition counter_incr :: "counter \<Rightarrow> string \<Rightarrow> counter" where
  "counter_incr kc k = AList.update k (counter_get kc k + 1) kc"

definition categories :: "(string \<times> string list) list" where
  "categories =
     [(''environment'', [''environment'', ''climate'', ''nature'', ''sustainability'',
                         ''conservation'', ''green'']),
      (''animal'', [''animal'', ''wildlife'', ''pet'', ''species'', ''habitat'']),
      (''education'', [''education'', ''learning'', ''teaching'', ''school'', ''students'',
                       ''literacy'']),
      (''healthcare'', [''health'', ''medicine'', ''care'', ''hospital'', ''disease'',
                        ''mental health'']),
      (''poverty'', [''poverty'', ''hunger'', ''homeless'', ''basic needs'',
                     ''food security'', ''inequality'']),
      (''human_rights'', [''human rights'', ''justice'', ''freedom'', ''equality'',
                          ''civil rights'']),
      (''children'', [''children'', ''kids'', ''youth'', ''adolescents'',
                      ''future generation''])]"

definition classify_cause_and_count :: "string \<Rightarrow> counter \<Rightarrow> counter" where
  "classify_cause_and_count sentence keyword_counter =
     fold (\<lambda>(category, keywords).
             fold (\<lambda>keyword kc.
                     if str_in keyword (lower sentence) then counter_incr kc category else kc)
                  keywords)
          categories keyword_counter"

text \<open>
  \<open>Counter.most_common()\<close> is \<open>sorted(items, key=itemgetter(1), reverse=True)\<close>: a stable
  sort by descending count.
\<close>

definition most_common :: "counter \<Rightarrow> (string \<times> int) list" where
  "most_common kc = sort_key (\<lambda>p. - snd p) kc"

definition get_main_and_secondary_causes :: "counter \<Rightarrow> string \<times> string" where
  "get_main_and_secondary_causes keyword_counter =
     (let sorted_causes = most_common keyword_counter;
          main_cause = (case sorted_causes of [] \<Rightarrow> ''None'' | x # _ \<Rightarrow> fst x);
          secondary_cause = (case sorted_causes of _ # y # _ \<Rightarrow> fst y | _ \<Rightarrow> ''None'')
      in (main_cause, secondary_cause))"

section \<open>Information extraction\<close>

text \<open>
  The state shared by the seed page and all jobs of one crawl: \<open>visited\<close>,
  \<open>contacts["emails"]\<close>, \<open>contacts["phones"]\<close>, \<open>mission_sentences\<close> and
  \<open>keyword_counter\<close>. \<open>fetched\<close> is a log of the calls of \<open>fetch_page_content\<close>, in order.
\<close>

record state =
  visited :: "string set"
  emails :: "string set"
  phones :: "string set"
  mission_sentences :: "string list"
  keyword_counter :: counter
  fetched :: "string list"

text \<open>
  What the program takes from outside: \<open>http_get url\<close> is the response text of
  \<open>requests.get\<close>, \<open>None\<close> when a \<open>RequestException\<close> is raised (transport error, timeout,
  status outside 2xx); \<open>get_text\<close> is BeautifulSoup's \<open>get_text(separator=' ')\<close>; \<open>hrefs\<close>
  gives the \<open>href\<close> attributes of the \<open>a\<close> elements; \<open>urljoin\<close> is \<open>requests.compat.urljoin\<close>;
  \<open>set_order\<close> is the order in which Python iterates a set of strings.
\<close>

record web =
  http_get :: "string \<Rightarrow> string option"
  get_text :: "string \<Rightarrow> string"
  hrefs :: "string \<Rightarrow> string list"
  urljoin :: "string \<Rightarrow> string \<Rightarrow> string"
  set_order :: "string set \<Rightarrow> string list"

definition valid_emails :: "string list \<Rightarrow> string list" where
  "valid_emails email_matches =
     filter (\<lambda>email. \<not> list_ex (\<lambda>char. str_in char email) [''?'', ''0'', ''_''])
       email_matches"

text \<open>\<open>re.match(r'\d', phone)\<close> succeeds when the pattern matches at the start of \<open>phone\<close>.\<close>

definition valid_phones :: "string list \<Rightarrow> string list" where
  "valid_phones phone_matches =
     filter (\<lambda>phone. match_len (Rep is_digit 1 (Some 1)) None phone \<noteq> None \<and>
                     length (remove_char CHR '' '' (remove_char CHR ''-'' phone)) \<ge> 7)
       phone_matches"

text \<open>The loop over the sorted mission sentences, with its \<open>break\<close>.\<close>

fun append_missions :: "string list \<Rightarrow> string list \<Rightarrow> string list" where
  "append_missions [] missions = missions"
| "append_missions (sentence # rest) missions =
     (if length missions < 3
      then append_missions rest (missions @ [strip sentence])
      else missions)"

definition extract_information :: "web \<Rightarrow> string \<Rightarrow> state \<Rightarrow> state" where
  "extract_information W html_content st =
     (let page_text = get_text W html_content;
          email_matches = findall email_pattern page_text;
          st1 = st\<lparr>emails := emails st \<union> set (valid_emails email_matches)\<rparr>;
          phone_matches = findall phone_pattern page_text;
          st2 = st1\<lparr>phones := phones st1 \<union> set (valid_phones phone_matches)\<rparr>;
          mission_matches = findall mission_pattern page_text;
          valid_mission_sentences =
            map strip (filter (\<lambda>sentence. filter_valid_sentence sentence 10 200)
                         mission_matches);
          st3 = st2\<lparr>mission_sentences :=
                  append_missions (sort_key length valid_mission_sentences)
                    (mission_sentences st2)\<rparr>
      in st3\<lparr>keyword_counter :=
               fold (\<lambda>sentence kc.
                       if filter_valid_sentence sentence 10 200
                       then classify_cause_and_count sentence kc else kc)
                    (split_dot page_text) (keyword_counter st3)\<rparr>)"

section \<open>The crawl\<close>

definition fetch_page_content :: "web \<Rightarrow> string \<Rightarrow> state \<Rightarrow> string option \<times> state" where
  "fetch_page_content W url st = (http_get W url, st\<lparr>fetched := fetched st @ [url]\<rparr>)"

definition find_links :: "web \<Rightarrow> string \<Rightarrow> string \<Rightarrow> string set" where
  "find_links W html base_url =
     urljoin W base_url ` {link \<in> set (hrefs W html). \<not> prefix ''#'' link}"

text \<open>\<open>if page_content:\<close> holds for a string that is neither \<open>None\<close> nor empty.\<close>

definition truthy :: "string option \<Rightarrow> bool" where
  "truthy content = (case content of None \<Rightarrow> False | Some s \<Rightarrow> s \<noteq> [])"

definition scrape_single_page :: "web \<Rightarrow> string \<Rightarrow> string \<Rightarrow> state \<Rightarrow> state" where
  "scrape_single_page W link base_url st =
     (if link \<notin> visited st \<and> str_in base_url link
      then (let st1 = st\<lparr>visited := insert link (visited st)\<rparr>;
                (page_content, st2) = fetch_page_content W link st1
            in if truthy page_content
               then extract_information W (the page_content) st2
               else st2)
      else st)"

datatype error = Main_page_not_loaded

text \<open>
  The outcome of a crawl that wrote its CSV file: the links submitted to the executor (one
  job each, in submission order), the shared state after the executor has shut down, and
  the rows written after the header row.
\<close>

record report =
  futures :: "string list"
  shared :: state
  csv :: "(string \<times> string \<times> string) list"

definition initial_state :: state where
  "initial_state = \<lparr>visited = {}, emails = {}, phones = {}, mission_sentences = [],
                     keyword_counter = [], fetched = []\<rparr>"

text \<open>
  \<open>Inl Main_page_not_loaded\<close> is the early \<open>return\<close> after printing that the main page could
  not be loaded: the CSV file is never opened. The jobs of the executor are run one after
  another, in the order of submission; \<open>set_order\<close> is arbitrary, so this covers every order.
\<close>

definition scrape_website :: "web \<Rightarrow> string \<Rightarrow> error + report" where
  "scrape_website W base_url =
     (let (main_page_content, st0) = fetch_page_content W base_url initial_state
      in if \<not> truthy main_page_content then Inl Main_page_not_loaded
         else
           (let st1 = st0\<lparr>visited := insert base_url (visited st0)\<rparr>;
                main_page_links = find_links W (the main_page_content) base_url;
                st2 = extract_information W (the main_page_content) st1;
                links = set_order W main_page_links;
                st3 = fold (\<lambda>link st. scrape_single_page W link base_url st) links st2;
                (main_cause, secondary_cause) =
                   get_main_and_secondary_causes (keyword_counter st3);
                email_list = take 3 (set_order W (emails st3));
                phone_list = take 3 (set_order W (phones st3))
            in Inr \<lparr>futures = links, shared = st3,
                     csv = map (\<lambda>email. (''Contact'', ''Email'', email)) email_list
                         @ map (\<lambda>phone. (''Contact'', ''Phone'', phone)) phone_list
                         @ [(''Main Cause'', main_cause, []),
                            (''Secondary Cause'', secondary_cause, [])]
                         @ map (\<lambda>sentence. (''Mission Sentence'', ''N/A'', strip sentence))
                             (mission_sentences st3)\<rparr>))"

text \<open>A small site used in the examples: a seed page with three links.\<close>

definition site_links :: "string list" where
  "site_links = [''http://a.org/x'', ''http://a.org/y'', ''http://b.com/z'']"

definition site :: web where
  "site = \<lparr>http_get = (\<lambda>url. if url = ''http://a.org'' then Some ''seed''
                            else if url = ''http://a.org/x'' then Some ''x''
                            else None),
           get_text = (\<lambda>html. if html = ''seed''
                                then ''Our mission is to protect wildlife. Mail jane.doe@example.com''
                                else ''The climate and the environment need care today.''),
           hrefs = (\<lambda>html. if html = ''seed'' then ''#top'' # site_links else []),
           urljoin = (\<lambda>base link. link),
           set_order = (\<lambda>S. if S = set site_links then site_links else [])\<rparr>"

text \<open>A site whose pages are plain text, used in the examples.\<close>

definition echo :: web where
  "echo = \<lparr>http_get = (\<lambda>url. None), get_text = (\<lambda>html. html), hrefs = (\<lambda>html. []),
           urljoin = (\<lambda>base link. link), set_order = (\<lambda>S. [])\<rparr>"

text \<open>A tally used in the examples.\<close>

definition example_tally :: counter where
  "example_tally = [(''animal'', 1), (''environment'', 3)]"

section \<open>The keyword tally\<close>

text \<open>
  The seven category names, and what holds of every tally a crawl can reach: its keys are
  distinct category names and every count in it is positive.
\<close>

definition category_names :: "string list" where
  "category_names = map fst categories"

definition tally_ok :: "counter \<Rightarrow> bool" where
  "tally_ok kc = (distinct (map fst kc) \<and> (\<forall>(k, v) \<in> set kc. k \<in> set category_names \<and> 0 < v))"

text \<open>
  The tally \<open>kc'\<close> has every key of \<open>kc\<close>, with a count that is not smaller.
\<close>

definition tally_le :: "counter \<Rightarrow> counter \<Rightarrow> bool" where
  "tally_le kc kc' = (fst ` set kc \<subseteq> fst ` set kc' \<and> (\<forall>c. counter_get kc c \<le> counter_get kc' c))"

section \<open>Substrings and case\<close>

lemma str_in_iff: "str_in p s \<longleftrightarrow> (\<exists>u v. s = u @ p @ v)"
proof (induction s)
  case Nil
  then show ?case by auto
next
  case (Cons c cs)
  show ?case
  proof
    assume "str_in p (c # cs)"
    then consider "prefix p (c # cs)" | "str_in p cs" by auto
    then show "\<exists>u v. c # cs = u @ p @ v"
    proof cases
      case 1
      then obtain v where "c # cs = p @ v" by (auto simp: prefix_def)
      then have "c # cs = [] @ p @ v" by simp
      then show ?thesis by blast
    next
      case 2
      with Cons.IH obtain u v where "cs = u @ p @ v" by auto
      then have "c # cs = (c # u) @ p @ v" by simp
      then show ?thesis by blast
    qed
  next
    assume "\<exists>u v. c # cs = u @ p @ v"
    then obtain u v where uv: "c # cs = u @ p @ v" by auto
    show "str_in p (c # cs)"
    proof (cases u)
      case Nil
      with uv have "prefix p (c # cs)" by (auto simp: prefix_def)
      then show ?thesis by simp
    next
      case (Cons a u')
      with uv have "cs = u' @ p @ v" by simp
      with Cons.IH have "str_in p cs" by blast
      then show ?thesis by simp
    qed
  qed
qed

lemma str_in_lower_iff: "str_in (lower p) (lower s) \<longleftrightarrow> occurs_ci p s"
proof -
  have "(\<exists>u v. map lower_char s = u @ map lower_char p @ v)
        \<longleftrightarrow> (\<exists>u w v. s = u @ w @ v \<and> map lower_char w = map lower_char p)"
    by (metis map_append map_eq_append_conv)
  then show ?thesis by (simp add: str_in_iff occurs_ci_def lower_def)
qed

lemma phrases_lower: "\<forall>p \<in> set common_invalid_phrases. lower p = p"
  by code_simp

lemma categories_lower: "\<forall>(c, kws) \<in> set categories. \<forall>k \<in> set kws. lower k = k"
  by code_simp

section \<open>The sentence filter\<close>

text \<open>
  Claim C7. \<open>filter_valid_sentence\<close> (with its default bounds 10 and 200) is a function of
  the sentence alone, and it returns \<open>False\<close> exactly when the stripped sentence is shorter
  than 10 characters, or longer than 200, or the sentence contains one of the blacklisted
  phrases up to case; in every other case it returns \<open>True\<close>.
\<close>

theorem C7_filter_valid_sentence:
  "filter_valid_sentence s 10 200 = False \<longleftrightarrow>
     (length (strip s) < 10 \<or> 200 < length (strip s)
      \<or> (\<exists>p \<in> set common_invalid_phrases. occurs_ci p s))"
proof -
  have "list_ex (\<lambda>phrase. str_in phrase (lower s)) common_invalid_phrases
        \<longleftrightarrow> (\<exists>p \<in> set common_invalid_phrases. occurs_ci p s)"
    unfolding list_ex_iff using phrases_lower str_in_lower_iff by (metis (no_types, lifting))
  then show ?thesis by (auto simp: filter_valid_sentence_def)
qed

theorem C7_filter_valid_sentence_witness:
  "filter_valid_sentence ''Read More about our work here'' 10 200 = False
   \<and> (length (strip ''Read More about our work here'') < 10
      \<or> 200 < length (strip ''Read More about our work here'')
      \<or> (\<exists>p \<in> set common_invalid_phrases. occurs_ci p ''Read More about our work here''))"
proof -
  have a: "filter_valid_sentence ''Read More about our work here'' 10 200 = False"
    by code_simp
  from a C7_filter_valid_sentence [of "''Read More about our work here''"]
  show ?thesis by blast
qed

section \<open>The classifier\<close>

lemma counter_get_incr:
  "counter_get (counter_incr kc k) c = (if c = k then counter_get kc k + 1 else counter_get kc c)"
  by (simp add: counter_get_def counter_incr_def update_conv')

lemma keys_incr: "fst ` set (counter_incr kc k) = insert k (fst ` set kc)"
  by (simp add: counter_incr_def dom_update)

lemma counter_get_pos:
  assumes "distinct (map fst kc)" "\<forall>(k, v) \<in> set kc. 0 < v"
  shows "0 \<le> counter_get kc k"
proof (cases "map_of kc k")
  case None
  then show ?thesis by (simp add: counter_get_def)
next
  case (Some v)
  then have "(k, v) \<in> set kc" by (rule map_of_SomeD)
  with assms(2) Some show ?thesis by (auto simp: counter_get_def)
qed

lemma set_update_cases:
  "(a, b) \<in> set (AList.update k v al) \<Longrightarrow> (a = k \<and> b = v) \<or> (a, b) \<in> set al"
  by (induction al) (auto split: if_splits)

lemma tally_ok_incr:
  assumes "tally_ok kc" "k \<in> set category_names"
  shows "tally_ok (counter_incr kc k)"
proof -
  from assms(1) have d: "distinct (map fst kc)" and p: "\<forall>(k, v) \<in> set kc. 0 < v"
    and n: "\<forall>(k, v) \<in> set kc. k \<in> set category_names"
    by (auto simp: tally_ok_def)
  have "0 \<le> counter_get kc k" using d p by (rule counter_get_pos)
  then have pos: "0 < counter_get kc k + 1" by simp
  have "distinct (map fst (counter_incr kc k))"
    using d by (simp add: counter_incr_def distinct_update)
  moreover have "\<forall>(a, b) \<in> set (counter_incr kc k). a \<in> set category_names \<and> 0 < b"
  proof (clarify)
    fix a b assume "(a, b) \<in> set (counter_incr kc k)"
    then have "(a = k \<and> b = counter_get kc k + 1) \<or> (a, b) \<in> set kc"
      unfolding counter_incr_def by (rule set_update_cases)
    then show "a \<in> set category_names \<and> 0 < b"
      using pos assms(2) p n by auto
  qed
  ultimately show ?thesis by (simp add: tally_ok_def)
qed

text \<open>The inner loop over the keywords of one category.\<close>

lemma inner_get:
  "counter_get (fold (\<lambda>keyword kc. if P keyword then counter_incr kc cat else kc) kws kc) c
   = counter_get kc c + (if c = cat then int (length (filter P kws)) else 0)"
  by (induction kws arbitrary: kc) (auto simp: counter_get_incr)

lemma inner_ok:
  "tally_ok kc \<Longrightarrow> cat \<in> set category_names \<Longrightarrow>
   tally_ok (fold (\<lambda>keyword kc. if P keyword then counter_incr kc cat else kc) kws kc)"
  by (induction kws arbitrary: kc) (auto simp: tally_ok_incr)

lemma inner_keys:
  "fst ` set kc \<subseteq> fst ` set (fold (\<lambda>keyword kc. if P keyword then counter_incr kc cat else kc) kws kc)"
proof (induction kws arbitrary: kc)
  case Nil
  then show ?case by simp
next
  case (Cons a kws)
  have "fst ` set kc \<subseteq> fst ` set (if P a then counter_incr kc cat else kc)"
    by (auto simp: keys_incr)
  also have "\<dots> \<subseteq> fst ` set (fold (\<lambda>keyword kc. if P keyword then counter_incr kc cat else kc) kws
      (if P a then counter_incr kc cat else kc))"
    by (rule Cons.IH)
  finally show ?case by simp
qed

lemma outer_get:
  "counter_get (fold (\<lambda>(category, keywords).
             fold (\<lambda>keyword kc. if P keyword then counter_incr kc category else kc) keywords)
          cats kc) c
   = counter_get kc c + (\<Sum>(cat, kws) \<leftarrow> cats. if c = cat then int (length (filter P kws)) else 0)"
  by (induction cats arbitrary: kc) (auto simp: inner_get)

lemma sum_distinct_key:
  "distinct (map fst cats) \<Longrightarrow> (c, kws) \<in> set cats \<Longrightarrow>
   (\<Sum>(cat, ks) \<leftarrow> cats. if c = cat then f ks else (0::int)) = f kws"
proof (induction cats)
  case Nil
  then show ?case by simp
next
  case (Cons a cats)
  show ?case
  proof (cases "a = (c, kws)")
    case True
    with Cons.prems have "c \<notin> fst ` set cats" by auto
    then have "(\<Sum>(cat, ks) \<leftarrow> cats. if c = cat then f ks else (0::int)) = 0"
      by (induction cats) auto
    with True show ?thesis by simp
  next
    case False
    with Cons.prems have in_rest: "(c, kws) \<in> set cats" by auto
    with Cons.prems have "fst a \<noteq> c" by (cases a) force
    with Cons in_rest show ?thesis by (cases a) auto
  qed
qed

lemma sum_no_key:
  "c \<notin> fst ` set cats \<Longrightarrow>
   (\<Sum>(cat, ks) \<leftarrow> cats. if c = cat then f ks else (0::int)) = 0"
  by (induction cats) auto

lemma categories_distinct: "distinct (map fst categories)"
  by code_simp

lemma classify_get:
  "(c, kws) \<in> set categories \<Longrightarrow>
   counter_get (classify_cause_and_count s kc) c
     = counter_get kc c + int (length (filter (\<lambda>keyword. str_in keyword (lower s)) kws))"
  unfolding classify_cause_and_count_def outer_get
  using sum_distinct_key [OF categories_distinct, of c kws] by simp

lemma classify_get_other:
  "c \<notin> set category_names \<Longrightarrow> counter_get (classify_cause_and_count s kc) c = counter_get kc c"
  unfolding classify_cause_and_count_def outer_get category_names_def
  using sum_no_key [of c categories] by simp

lemma outer_ok:
  "tally_ok kc \<Longrightarrow> fst ` set cats \<subseteq> set category_names \<Longrightarrow>
   tally_ok (fold (\<lambda>(category, keywords).
             fold (\<lambda>keyword kc. if P keyword then counter_incr kc category else kc) keywords)
          cats kc)"
  by (induction cats arbitrary: kc) (auto simp: inner_ok)

lemma classify_ok: "tally_ok kc \<Longrightarrow> tally_ok (classify_cause_and_count s kc)"
  unfolding classify_cause_and_count_def
  by (rule outer_ok) (auto simp: category_names_def)

lemma outer_keys:
  "fst ` set kc \<subseteq> fst ` set (fold (\<lambda>(category, keywords).
             fold (\<lambda>keyword kc. if P keyword then counter_incr kc category else kc) keywords)
          cats kc)"
proof (induction cats arbitrary: kc)
  case Nil
  then show ?case by simp
next
  case (Cons a cats)
  obtain cat kws where a: "a = (cat, kws)" by (cases a)
  show ?case unfolding a using inner_keys [of kc _ cat kws] Cons.IH by (simp, blast)
qed

lemma classify_keys: "fst ` set kc \<subseteq> fst ` set (classify_cause_and_count s kc)"
  unfolding classify_cause_and_count_def by (rule outer_keys)

lemma classify_mono: "counter_get kc c \<le> counter_get (classify_cause_and_count s kc) c"
proof -
  have "0 \<le> (\<Sum>(cat, kws) \<leftarrow> cats. if c = cat then int (length (filter P kws)) else 0)"
    for cats :: "(string \<times> string list) list" and P
    by (induction cats) auto
  then show ?thesis unfolding classify_cause_and_count_def outer_get by simp
qed

text \<open>
  Claim C2, as the code has it. For every sentence and each of the seven categories,
  \<open>classify_cause_and_count\<close> adds to the category's counter the number of the category's
  trigger substrings that occur in the sentence up to case: one for each trigger that
  occurs, however often it occurs, and nothing when none occurs.
\<close>

theorem C2_classify_counts_triggers:
  assumes "(c, kws) \<in> set categories"
  shows "counter_get (classify_cause_and_count s kc) c
           = counter_get kc c + int (length (filter (\<lambda>keyword. occurs_ci keyword s) kws))"
proof -
  have "str_in k (lower s) \<longleftrightarrow> occurs_ci k s" if "k \<in> set kws" for k
  proof -
    from assms that categories_lower have "lower k = k" by fastforce
    with str_in_lower_iff [of k s] show ?thesis by simp
  qed
  then have "filter (\<lambda>keyword. str_in keyword (lower s)) kws
             = filter (\<lambda>keyword. occurs_ci keyword s) kws"
    by (auto intro: filter_cong)
  with classify_get [OF assms, of s kc] show ?thesis by simp
qed

theorem C2_classify_counts_triggers_witness:
  "(''animal'', [''animal'', ''wildlife'', ''pet'', ''species'', ''habitat'']) \<in> set categories
   \<and> counter_get (classify_cause_and_count ''Wildlife and pets'' []) ''animal''
       = counter_get [] ''animal''
         + int (length (filter (\<lambda>keyword. occurs_ci keyword ''Wildlife and pets'')
                          [''animal'', ''wildlife'', ''pet'', ''species'', ''habitat'']))"
proof -
  have h: "(''animal'', [''animal'', ''wildlife'', ''pet'', ''species'', ''habitat''])
             \<in> set categories"
    by (simp add: categories_def)
  from h C2_classify_counts_triggers [OF h, of "''Wildlife and pets''" "[]"]
  show ?thesis by blast
qed

text \<open>
  One sentence with two triggers of the category \<open>environment\<close> raises its counter by two.
\<close>

theorem C2_counterexample:
  "counter_get [] ''environment'' = 0
   \<and> counter_get (classify_cause_and_count ''Protect the climate and the environment'' [])
         ''environment'' = 2"
  by code_simp

section \<open>Ranking the causes\<close>

text \<open>The head of a stable sort is the first element with the least key.\<close>

lemma sort_key_head:
  fixes f :: "'a \<Rightarrow> int"
  assumes "xs \<noteq> []"
  shows "\<exists>as m bs. xs = as @ m # bs \<and> (\<forall>a \<in> set as. f m < f a) \<and> (\<forall>b \<in> set bs. f m \<le> f b)
           \<and> sort_key f xs = m # sort_key f (as @ bs)"
  using assms
proof (induction xs)
  case Nil
  then show ?case by simp
next
  case (Cons x xs)
  show ?case
  proof (cases "xs = []")
    case True
    have "x # xs = [] @ x # [] \<and> (\<forall>a \<in> set []. f x < f a) \<and> (\<forall>b \<in> set []. f x \<le> f b)
          \<and> sort_key f (x # xs) = x # sort_key f ([] @ [])"
      using True by simp
    then show ?thesis by blast
  next
    case False
    with Cons.IH obtain as m bs where xs: "xs = as @ m # bs"
      and lt: "\<forall>a \<in> set as. f m < f a" and le: "\<forall>b \<in> set bs. f m \<le> f b"
      and srt: "sort_key f xs = m # sort_key f (as @ bs)" by blast
    show ?thesis
    proof (cases "f x \<le> f m")
      case True
      have "\<forall>b \<in> set xs. f x \<le> f b" using True lt le xs by fastforce
      moreover have "sort_key f (x # xs) = x # sort_key f ([] @ xs)"
        using True srt by simp
      ultimately have "x # xs = [] @ x # xs \<and> (\<forall>a \<in> set []. f x < f a)
          \<and> (\<forall>b \<in> set xs. f x \<le> f b) \<and> sort_key f (x # xs) = x # sort_key f ([] @ xs)"
        by simp
      then show ?thesis by blast
    next
      case False
      then have "sort_key f (x # xs) = m # sort_key f ((x # as) @ bs)"
        using srt by simp
      moreover have "\<forall>a \<in> set (x # as). f m < f a" using False lt by auto
      moreover have "x # xs = (x # as) @ m # bs" using xs by simp
      ultimately show ?thesis using le by blast
    qed
  qed
qed

text \<open>
  Claim C3, as the code has it. \<open>get_main_and_secondary_causes\<close> ranks the entries of the
  tally by descending count, ties broken by the order in which the categories entered the
  tally: the primary cause is the first entry that no entry exceeds, the secondary cause
  is the first such entry among the remaining ones. Primary is \<open>None\<close> for an empty tally and
  secondary is \<open>None\<close> for a tally with fewer than two entries. A tally in which
  \<open>environment\<close> counts 3 and \<open>animal\<close> counts 1 gives \<open>environment\<close> and \<open>animal\<close>.
\<close>

theorem C3_causes_by_count_then_insertion:
  "(kc = [] \<longrightarrow> get_main_and_secondary_causes kc = (''None'', ''None''))
   \<and> (kc \<noteq> [] \<longrightarrow>
        (\<exists>as m bs. kc = as @ m # bs
           \<and> (\<forall>a \<in> set as. snd a < snd m) \<and> (\<forall>b \<in> set bs. snd b \<le> snd m)
           \<and> fst (get_main_and_secondary_causes kc) = fst m
           \<and> (as @ bs = [] \<longrightarrow> snd (get_main_and_secondary_causes kc) = ''None'')
           \<and> (as @ bs \<noteq> [] \<longrightarrow>
                (\<exists>cs s ds. as @ bs = cs @ s # ds
                   \<and> (\<forall>c \<in> set cs. snd c < snd s) \<and> (\<forall>d \<in> set ds. snd d \<le> snd s)
                   \<and> snd (get_main_and_secondary_causes kc) = fst s))))
   \<and> get_main_and_secondary_causes [(''environment'', 3), (''animal'', 1)]
       = (''environment'', ''animal'')"
proof (intro conjI impI)
  assume "kc = []"
  then show "get_main_and_secondary_causes kc = (''None'', ''None'')"
    by (simp add: get_main_and_secondary_causes_def most_common_def)
next
  assume ne: "kc \<noteq> []"
  from sort_key_head [OF ne, of "\<lambda>p. - snd p"]
  obtain as m bs where kc: "kc = as @ m # bs"
    and lt: "\<forall>a \<in> set as. snd a < snd m" and le: "\<forall>b \<in> set bs. snd b \<le> snd m"
    and srt: "most_common kc = m # most_common (as @ bs)"
    unfolding most_common_def by auto
  have main: "fst (get_main_and_secondary_causes kc) = fst m"
    by (simp add: get_main_and_secondary_causes_def srt)
  have none: "snd (get_main_and_secondary_causes kc) = ''None''" if "as @ bs = []"
  proof -
    from that have "most_common (as @ bs) = []" by (simp add: most_common_def)
    then show ?thesis by (simp add: get_main_and_secondary_causes_def srt)
  qed
  have second: "\<exists>cs s ds. as @ bs = cs @ s # ds
                   \<and> (\<forall>c \<in> set cs. snd c < snd s) \<and> (\<forall>d \<in> set ds. snd d \<le> snd s)
                   \<and> snd (get_main_and_secondary_causes kc) = fst s" if ne2: "as @ bs \<noteq> []"
  proof -
    from sort_key_head [OF ne2, of "\<lambda>p. - snd p"]
    obtain cs s ds where r: "as @ bs = cs @ s # ds"
      and lt2: "\<forall>c \<in> set cs. snd c < snd s" and le2: "\<forall>d \<in> set ds. snd d \<le> snd s"
      and srt2: "most_common (as @ bs) = s # most_common (cs @ ds)"
      unfolding most_common_def by auto
    have "snd (get_main_and_secondary_causes kc) = fst s"
      by (simp add: get_main_and_secondary_causes_def srt srt2)
    with r lt2 le2 show ?thesis by blast
  qed
  show "\<exists>as m bs. kc = as @ m # bs
           \<and> (\<forall>a \<in> set as. snd a < snd m) \<and> (\<forall>b \<in> set bs. snd b \<le> snd m)
           \<and> fst (get_main_and_secondary_causes kc) = fst m
           \<and> (as @ bs = [] \<longrightarrow> snd (get_main_and_secondary_causes kc) = ''None'')
           \<and> (as @ bs \<noteq> [] \<longrightarrow>
                (\<exists>cs s ds. as @ bs = cs @ s # ds
                   \<and> (\<forall>c \<in> set cs. snd c < snd s) \<and> (\<forall>d \<in> set ds. snd d \<le> snd s)
                   \<and> snd (get_main_and_secondary_causes kc) = fst s))"
    using kc lt le main none second by blast
next
  show "get_main_and_secondary_causes [(''environment'', 3), (''animal'', 1)]
       = (''environment'', ''animal'')"
    by (simp add: get_main_and_secondary_causes_def most_common_def)
qed

theorem C3_causes_witness:
  "example_tally \<noteq> []
   \<and> (\<exists>as m bs. example_tally = as @ m # bs
           \<and> (\<forall>a \<in> set as. snd a < snd m) \<and> (\<forall>b \<in> set bs. snd b \<le> snd m)
           \<and> fst (get_main_and_secondary_causes example_tally) = fst m
           \<and> (as @ bs = [] \<longrightarrow> snd (get_main_and_secondary_causes example_tally) = ''None'')
           \<and> (as @ bs \<noteq> [] \<longrightarrow>
                (\<exists>cs s ds. as @ bs = cs @ s # ds
                   \<and> (\<forall>c \<in> set cs. snd c < snd s) \<and> (\<forall>d \<in> set ds. snd d \<le> snd s)
                   \<and> snd (get_main_and_secondary_causes example_tally) = fst s)))
   \<and> get_main_and_secondary_causes example_tally = (''environment'', ''animal'')"
proof -
  have h: "example_tally \<noteq> []" by (simp add: example_tally_def)
  have v: "get_main_and_secondary_causes example_tally = (''environment'', ''animal'')"
    by (simp add: get_main_and_secondary_causes_def most_common_def example_tally_def)
  note t = C3_causes_by_count_then_insertion [of example_tally]
  from t have imp: "example_tally \<noteq> [] \<longrightarrow>
      (\<exists>as m bs. example_tally = as @ m # bs
           \<and> (\<forall>a \<in> set as. snd a < snd m) \<and> (\<forall>b \<in> set bs. snd b \<le> snd m)
           \<and> fst (get_main_and_secondary_causes example_tally) = fst m
           \<and> (as @ bs = [] \<longrightarrow> snd (get_main_and_secondary_causes example_tally) = ''None'')
           \<and> (as @ bs \<noteq> [] \<longrightarrow>
                (\<exists>cs s ds. as @ bs = cs @ s # ds
                   \<and> (\<forall>c \<in> set cs. snd c < snd s) \<and> (\<forall>d \<in> set ds. snd d \<le> snd s)
                   \<and> snd (get_main_and_secondary_causes example_tally) = fst s)))"
    by (rule conjunct1 [OF conjunct2])
  from imp h have ex: "\<exists>as m bs. example_tally = as @ m # bs
           \<and> (\<forall>a \<in> set as. snd a < snd m) \<and> (\<forall>b \<in> set bs. snd b \<le> snd m)
           \<and> fst (get_main_and_secondary_causes example_tally) = fst m
           \<and> (as @ bs = [] \<longrightarrow> snd (get_main_and_secondary_causes example_tally) = ''None'')
           \<and> (as @ bs \<noteq> [] \<longrightarrow>
                (\<exists>cs s ds. as @ bs = cs @ s # ds
                   \<and> (\<forall>c \<in> set cs. snd c < snd s) \<and> (\<forall>d \<in> set ds. snd d \<le> snd s)
                   \<and> snd (get_main_and_secondary_causes example_tally) = fst s))"
    by (rule mp)
  show ?thesis by (rule conjI [OF h conjI [OF ex v]])
qed

text \<open>
  \<open>environment\<close> is declared before \<open>animal\<close>, but a page that mentions wildlife in its
  first sentence and nature in its second has \<open>animal\<close> first in its tally, and \<open>animal\<close>
  wins the tie.
\<close>

theorem C3_counterexample:
  "take 2 (map fst categories) = [''environment'', ''animal'']
   \<and> classify_cause_and_count ''We love nature'' (classify_cause_and_count ''We love wildlife'' [])
       = [(''animal'', 1), (''environment'', 1)]
   \<and> get_main_and_secondary_causes
        (classify_cause_and_count ''We love nature''
           (classify_cause_and_count ''We love wildlife'' []))
       = (''animal'', ''environment'')"
  by code_simp

section \<open>What one page adds\<close>

lemma extract_emails:
  "emails (extract_information W h st)
   = emails st \<union> set (valid_emails (findall email_pattern (get_text W h)))"
  by (simp add: extract_information_def Let_def)

lemma extract_phones:
  "phones (extract_information W h st)
   = phones st \<union> set (valid_phones (findall phone_pattern (get_text W h)))"
  by (simp add: extract_information_def Let_def)

lemma extract_missions:
  "mission_sentences (extract_information W h st)
   = append_missions
       (sort_key length (map strip (filter (\<lambda>sentence. filter_valid_sentence sentence 10 200)
          (findall mission_pattern (get_text W h)))))
       (mission_sentences st)"
  by (simp add: extract_information_def Let_def)

lemma extract_counter:
  "keyword_counter (extract_information W h st)
   = fold (\<lambda>sentence kc. if filter_valid_sentence sentence 10 200
                          then classify_cause_and_count sentence kc else kc)
       (split_dot (get_text W h)) (keyword_counter st)"
  by (simp add: extract_information_def Let_def)

lemma extract_visited: "visited (extract_information W h st) = visited st"
  by (simp add: extract_information_def Let_def)

lemma extract_fetched: "fetched (extract_information W h st) = fetched st"
  by (simp add: extract_information_def Let_def)

lemma str_in_single: "str_in [c] s \<longleftrightarrow> c \<in> set s"
  by (induction s) (auto simp: prefix_def)

lemma valid_emails_iff:
  "e \<in> set (valid_emails xs) \<longleftrightarrow>
     e \<in> set xs \<and> CHR ''?'' \<notin> set e \<and> CHR ''0'' \<notin> set e \<and> CHR ''_'' \<notin> set e"
  by (auto simp: valid_emails_def str_in_single)

lemma rep_zero_nonempty: "rep P 0 hi prev s \<noteq> []"
  by (cases s) auto

lemma match_digit_iff:
  "match_len (Rep is_digit 1 (Some 1)) None p \<noteq> None \<longleftrightarrow> (\<exists>c cs. p = c # cs \<and> is_digit c)"
proof (cases p)
  case Nil
  then show ?thesis by (simp add: match_len_def)
next
  case (Cons c cs)
  have "rep is_digit 0 (Some 0) (Some c) cs \<noteq> []" by (rule rep_zero_nonempty)
  then show ?thesis using Cons by (auto simp: match_len_def split: list.splits)
qed

lemma valid_phones_iff:
  "p \<in> set (valid_phones xs) \<longleftrightarrow>
     p \<in> set xs \<and> (\<exists>c cs. p = c # cs \<and> is_digit c)
     \<and> 7 \<le> length (filter (\<lambda>c. c \<noteq> CHR ''-'' \<and> c \<noteq> CHR '' '') p)"
proof -
  have "remove_char CHR '' '' (remove_char CHR ''-'' p)
        = filter (\<lambda>c. c \<noteq> CHR ''-'' \<and> c \<noteq> CHR '' '') p"
    by (simp add: remove_char_def conj_commute)
  then show ?thesis
    unfolding valid_phones_def using match_digit_iff [of p] by auto
qed

lemma append_missions_eq:
  "append_missions xs acc = acc @ take (3 - length acc) (map strip xs)"
proof (induction xs arbitrary: acc)
  case Nil
  then show ?case by simp
next
  case (Cons s rest)
  show ?case
  proof (cases "length acc < 3")
    case True
    then obtain n where n: "3 - length acc = Suc n" by (cases "3 - length acc") auto
    then have "3 - length (acc @ [strip s]) = n" by simp
    with Cons.IH [of "acc @ [strip s]"] True n show ?thesis by simp
  next
    case False
    then show ?thesis by simp
  qed
qed

lemma append_missions_length: "length acc \<le> 3 \<Longrightarrow> length (append_missions xs acc) \<le> 3"
  by (simp add: append_missions_eq)

lemma dropWhile_self: "xs = [] \<or> \<not> P (hd xs) \<Longrightarrow> dropWhile P xs = xs"
  by (cases xs) auto

lemma strip_shape:
  fixes P :: "'a \<Rightarrow> bool"
  defines "u \<equiv> \<lambda>s. dropWhile P (rev (dropWhile P s))"
  shows "rev (dropWhile P (rev (dropWhile P (rev (u s))))) = rev (u s)"
proof -
  let ?t = "dropWhile P s"
  have t: "?t = [] \<or> \<not> P (hd ?t)" using hd_dropWhile [of P s] by blast
  have split: "rev ?t = takeWhile P (rev ?t) @ u s"
    by (simp add: u_def)
  then have "?t = rev (u s) @ rev (takeWhile P (rev ?t))"
    by (metis rev_append rev_rev_ident)
  then have "rev (u s) \<noteq> [] \<Longrightarrow> hd (rev (u s)) = hd ?t \<and> ?t \<noteq> []"
    by (metis hd_append2 append_is_Nil_conv)
  with t have "rev (u s) = [] \<or> \<not> P (hd (rev (u s)))" by metis
  then have a: "dropWhile P (rev (u s)) = rev (u s)" by (rule dropWhile_self)
  have b: "dropWhile P (u s) = u s" by (simp add: u_def)
  show ?thesis by (simp add: a b)
qed

lemma strip_idem: "strip (strip s) = strip s"
  unfolding strip_def by (rule strip_shape)

text \<open>
  Claim C5. \<open>extract_information\<close> adds a match of the email pattern to the email set if
  and only if it contains none of the characters \<open>?\<close>, \<open>0\<close> and \<open>_\<close>. The candidate
  \<open>a?b@example.com\<close> is rejected and \<open>jane.doe@example.com\<close> is accepted; on a page with
  both texts the first is not in the set (the pattern cannot match a \<open>?\<close>, so what it
  finds there is \<open>b@example.com\<close>) and the second is.
\<close>

theorem C5_email_filter:
  "emails (extract_information W h st)
     = emails st \<union> {e \<in> set (findall email_pattern (get_text W h)).
                        CHR ''?'' \<notin> set e \<and> CHR ''0'' \<notin> set e \<and> CHR ''_'' \<notin> set e}
   \<and> valid_emails [''a?b@example.com'', ''jane.doe@example.com''] = [''jane.doe@example.com'']
   \<and> emails (extract_information echo ''Write to a?b@example.com or jane.doe@example.com''
               initial_state)
       = {''b@example.com'', ''jane.doe@example.com''}"
proof (intro conjI)
  show "emails (extract_information W h st)
     = emails st \<union> {e \<in> set (findall email_pattern (get_text W h)).
                        CHR ''?'' \<notin> set e \<and> CHR ''0'' \<notin> set e \<and> CHR ''_'' \<notin> set e}"
    unfolding extract_emails using valid_emails_iff by blast
  show "valid_emails [''a?b@example.com'', ''jane.doe@example.com''] = [''jane.doe@example.com'']"
    by code_simp
  have "findall email_pattern ''Write to a?b@example.com or jane.doe@example.com''
        = [''b@example.com'', ''jane.doe@example.com'']"
    by code_simp
  moreover have "valid_emails [''b@example.com'', ''jane.doe@example.com'']
        = [''b@example.com'', ''jane.doe@example.com'']"
    by code_simp
  ultimately show "emails (extract_information echo
        ''Write to a?b@example.com or jane.doe@example.com'' initial_state)
       = {''b@example.com'', ''jane.doe@example.com''}"
    by (simp add: extract_emails echo_def initial_state_def)
qed

theorem C5_email_filter_witness:
  "emails (extract_information echo ''info_desk@a.org, jane.doe@example.com'' initial_state)
     = emails initial_state \<union> {e \<in> set (findall email_pattern
                                   (get_text echo ''info_desk@a.org, jane.doe@example.com'')).
                        CHR ''?'' \<notin> set e \<and> CHR ''0'' \<notin> set e \<and> CHR ''_'' \<notin> set e}"
  using C5_email_filter [of echo "''info_desk@a.org, jane.doe@example.com''" initial_state]
  by (rule conjunct1)

text \<open>
  Claim C6, as the code has it. \<open>extract_information\<close> adds a match of the phone pattern to
  the phone set if and only if its first character is a digit and its length after removing
  hyphens and spaces is at least 7; every other character of the match (a dot, a
  parenthesis, a plus sign, a tab) counts towards that length. The candidate \<open>555-1234\<close>
  is accepted and \<open>12\<close> is rejected.
\<close>

theorem C6_phone_filter:
  "phones (extract_information W h st)
     = phones st \<union> {p \<in> set (findall phone_pattern (get_text W h)).
                        (\<exists>c cs. p = c # cs \<and> is_digit c)
                        \<and> 7 \<le> length (filter (\<lambda>c. c \<noteq> CHR ''-'' \<and> c \<noteq> CHR '' '') p)}
   \<and> valid_phones [''555-1234'', ''12''] = [''555-1234'']
   \<and> phones (extract_information echo ''555-1234'' initial_state) = {''555-1234''}
   \<and> phones (extract_information echo ''12'' initial_state) = {}"
proof (intro conjI)
  show "phones (extract_information W h st)
     = phones st \<union> {p \<in> set (findall phone_pattern (get_text W h)).
                        (\<exists>c cs. p = c # cs \<and> is_digit c)
                        \<and> 7 \<le> length (filter (\<lambda>c. c \<noteq> CHR ''-'' \<and> c \<noteq> CHR '' '') p)}"
    unfolding extract_phones using valid_phones_iff by blast
  show v: "valid_phones [''555-1234'', ''12''] = [''555-1234'']"
    by code_simp
  have "findall phone_pattern ''555-1234'' = [''555-1234'']"
    by code_simp
  moreover have "valid_phones [''555-1234''] = [''555-1234'']"
    by code_simp
  ultimately show "phones (extract_information echo ''555-1234'' initial_state) = {''555-1234''}"
    by (simp add: extract_phones echo_def initial_state_def)
  have "findall phone_pattern ''12'' = []"
    by code_simp
  moreover have "valid_phones [] = []"
    by (simp add: valid_phones_def)
  ultimately show "phones (extract_information echo ''12'' initial_state) = {}"
    by (simp add: extract_phones echo_def initial_state_def)
qed

theorem C6_phone_filter_witness:
  "phones (extract_information echo ''Tel 555-1234'' initial_state)
     = phones initial_state \<union> {p \<in> set (findall phone_pattern (get_text echo ''Tel 555-1234'')).
                        (\<exists>c cs. p = c # cs \<and> is_digit c)
                        \<and> 7 \<le> length (filter (\<lambda>c. c \<noteq> CHR ''-'' \<and> c \<noteq> CHR '' '') p)}"
  using C6_phone_filter [of echo "''Tel 555-1234''" initial_state]
  by (rule conjunct1)

text \<open>
  The match \<open>12.34.56\<close> has six digits; its two dots bring its length to eight, and it is
  added.
\<close>

theorem C6_counterexample:
  "findall phone_pattern ''12.34.56'' = [''12.34.56'']
   \<and> length (filter is_digit ''12.34.56'') = 6
   \<and> phones (extract_information echo ''12.34.56'' initial_state) = {''12.34.56''}"
proof (intro conjI)
  show f: "findall phone_pattern ''12.34.56'' = [''12.34.56'']"
    by code_simp
  show "length (filter is_digit ''12.34.56'') = 6"
    by code_simp
  have "valid_phones [''12.34.56''] = [''12.34.56'']"
    by code_simp
  with f show "phones (extract_information echo ''12.34.56'' initial_state) = {''12.34.56''}"
    by (simp add: extract_phones echo_def initial_state_def)
qed

section \<open>Jobs and the crawl\<close>

lemma tally_le_refl: "tally_le kc kc"
  by (simp add: tally_le_def)

lemma tally_le_trans: "tally_le a b \<Longrightarrow> tally_le b c \<Longrightarrow> tally_le a c"
  unfolding tally_le_def by (meson order_trans)

lemma classify_le: "tally_le kc (classify_cause_and_count s kc)"
  by (simp add: tally_le_def classify_keys classify_mono)

lemma sentences_ok:
  "tally_ok kc \<Longrightarrow>
   tally_ok (fold (\<lambda>sentence kc. if filter_valid_sentence sentence 10 200
                          then classify_cause_and_count sentence kc else kc) ss kc)"
  by (induction ss arbitrary: kc) (auto simp: classify_ok)

lemma sentences_le:
  "tally_le kc (fold (\<lambda>sentence kc. if filter_valid_sentence sentence 10 200
                          then classify_cause_and_count sentence kc else kc) ss kc)"
proof (induction ss arbitrary: kc)
  case Nil
  then show ?case by (simp add: tally_le_refl)
next
  case (Cons s ss)
  let ?k = "if filter_valid_sentence s 10 200 then classify_cause_and_count s kc else kc"
  have a: "tally_le kc ?k"
    by (simp add: classify_le tally_le_refl)
  have b: "tally_le ?k (fold (\<lambda>sentence kc. if filter_valid_sentence sentence 10 200
                          then classify_cause_and_count sentence kc else kc) ss ?k)"
    by (rule Cons.IH)
  from tally_le_trans [OF a b] show ?case by simp
qed

lemma extract_ok:
  "tally_ok (keyword_counter st) \<Longrightarrow> tally_ok (keyword_counter (extract_information W h st))"
  by (simp add: extract_counter sentences_ok)

lemma extract_le:
  "tally_le (keyword_counter st) (keyword_counter (extract_information W h st))"
  by (simp add: extract_counter sentences_le)

text \<open>One job, field by field.\<close>

lemma single_cases:
  "scrape_single_page W l b st =
     (if l \<notin> visited st \<and> str_in b l
      then (if truthy (http_get W l)
            then extract_information W (the (http_get W l))
                   (st\<lparr>visited := insert l (visited st), fetched := fetched st @ [l]\<rparr>)
            else st\<lparr>visited := insert l (visited st), fetched := fetched st @ [l]\<rparr>)
      else st)"
  by (simp add: scrape_single_page_def fetch_page_content_def Let_def)

lemma single_fetched:
  "fetched (scrape_single_page W l b st)
   = (if l \<notin> visited st \<and> str_in b l then fetched st @ [l] else fetched st)"
  by (simp add: single_cases extract_fetched)

lemma single_visited:
  "visited (scrape_single_page W l b st)
   = (if l \<notin> visited st \<and> str_in b l then insert l (visited st) else visited st)"
  by (simp add: single_cases extract_visited)

lemma single_missions:
  "length (mission_sentences st) \<le> 3 \<Longrightarrow>
   length (mission_sentences (scrape_single_page W l b st)) \<le> 3"
  by (simp add: single_cases extract_missions append_missions_length)

lemma single_ok:
  "tally_ok (keyword_counter st) \<Longrightarrow> tally_ok (keyword_counter (scrape_single_page W l b st))"
  by (simp add: single_cases extract_ok)

lemma single_le:
  "tally_le (keyword_counter st) (keyword_counter (scrape_single_page W l b st))"
  using extract_le [of "st\<lparr>visited := insert l (visited st), fetched := fetched st @ [l]\<rparr>" W]
  by (simp add: single_cases tally_le_refl)

lemma single_failed:
  assumes "\<not> truthy (http_get W l)"
  shows "scrape_single_page W l b st =
     (if l \<notin> visited st \<and> str_in b l
      then st\<lparr>visited := insert l (visited st), fetched := fetched st @ [l]\<rparr> else st)"
  using assms by (simp add: single_cases)

text \<open>All jobs.\<close>

lemma jobs_missions:
  "length (mission_sentences st) \<le> 3 \<Longrightarrow>
   length (mission_sentences (fold (\<lambda>link st. scrape_single_page W link b st) links st)) \<le> 3"
  by (induction links arbitrary: st) (auto simp: single_missions)

lemma jobs_ok:
  "tally_ok (keyword_counter st) \<Longrightarrow>
   tally_ok (keyword_counter (fold (\<lambda>link st. scrape_single_page W link b st) links st))"
  by (induction links arbitrary: st) (auto simp: single_ok)

lemma jobs_visited:
  "visited (fold (\<lambda>link st. scrape_single_page W link b st) links st)
   = visited st \<union> {l \<in> set links. str_in b l}"
  by (induction links arbitrary: st) (auto simp: single_visited)

lemma jobs_fetched:
  "set (fetched st) = visited st \<Longrightarrow> distinct (fetched st) \<Longrightarrow>
   set (fetched (fold (\<lambda>link st. scrape_single_page W link b st) links st))
     = visited (fold (\<lambda>link st. scrape_single_page W link b st) links st)
   \<and> distinct (fetched (fold (\<lambda>link st. scrape_single_page W link b st) links st))"
proof (induction links arbitrary: st)
  case Nil
  then show ?case by simp
next
  case (Cons l links)
  have "set (fetched (scrape_single_page W l b st)) = visited (scrape_single_page W l b st)"
    using Cons.prems by (auto simp: single_fetched single_visited)
  moreover have "distinct (fetched (scrape_single_page W l b st))"
    using Cons.prems by (auto simp: single_fetched)
  ultimately show ?case using Cons.IH [of "scrape_single_page W l b st"] by simp
qed

lemma crawl_fail:
  "\<not> truthy (http_get W b) \<Longrightarrow> scrape_website W b = Inl Main_page_not_loaded"
  by (simp add: scrape_website_def fetch_page_content_def)

lemma crawl_ok:
  assumes "truthy (http_get W b)"
  shows "\<exists>rows. scrape_website W b =
      Inr \<lparr>futures = set_order W (find_links W (the (http_get W b)) b),
                shared = fold (\<lambda>link st. scrape_single_page W link b st)
                           (set_order W (find_links W (the (http_get W b)) b))
                           (extract_information W (the (http_get W b))
                              (initial_state\<lparr>fetched := [b], visited := {b}\<rparr>)),
                csv = rows\<rparr>"
proof -
  obtain m s where ms: "get_main_and_secondary_causes (keyword_counter
         (fold (\<lambda>link st. scrape_single_page W link b st)
                           (set_order W (find_links W (the (http_get W b)) b))
                           (extract_information W (the (http_get W b))
                              (initial_state\<lparr>fetched := [b], visited := {b}\<rparr>)))) = (m, s)"
    by (cases "get_main_and_secondary_causes (keyword_counter
         (fold (\<lambda>link st. scrape_single_page W link b st)
                           (set_order W (find_links W (the (http_get W b)) b))
                           (extract_information W (the (http_get W b))
                              (initial_state\<lparr>fetched := [b], visited := {b}\<rparr>))))") auto
  have i: "initial_state\<lparr>fetched := fetched initial_state @ [b]\<rparr>
             \<lparr>visited := insert b (visited (initial_state\<lparr>fetched := fetched initial_state @ [b]\<rparr>))\<rparr>
           = initial_state\<lparr>fetched := [b], visited := {b}\<rparr>"
    by (simp add: initial_state_def)
  show ?thesis
    using assms unfolding scrape_website_def fetch_page_content_def Let_def
    by (simp only: i ms prod.case if_not_P not_not if_True if_False fst_conv snd_conv) blast
qed

lemma map_strip_sorted:
  "map strip (sort_key length (map strip xs)) = sort_key length (map strip xs)"
proof (rule map_idI)
  fix z assume "z \<in> set (sort_key length (map strip xs))"
  then obtain x where "z = strip x" by auto
  then show "strip z = z" by (simp add: strip_idem)
qed

lemma extract_missions_le:
  "length (mission_sentences st) \<le> 3 \<Longrightarrow>
   length (mission_sentences (extract_information W h st)) \<le> 3"
  by (simp add: extract_missions append_missions_length)

lemma crawl_shared:
  assumes "scrape_website W b = Inr r"
  shows "truthy (http_get W b)"
    and "futures r = set_order W (find_links W (the (http_get W b)) b)"
    and "shared r = fold (\<lambda>link st. scrape_single_page W link b st)
                           (set_order W (find_links W (the (http_get W b)) b))
                           (extract_information W (the (http_get W b))
                              (initial_state\<lparr>fetched := [b], visited := {b}\<rparr>))"
proof -
  show t: "truthy (http_get W b)"
    using assms crawl_fail [of W b] by auto
  from crawl_ok [OF t] assms
  show "futures r = set_order W (find_links W (the (http_get W b)) b)"
    and "shared r = fold (\<lambda>link st. scrape_single_page W link b st)
                           (set_order W (find_links W (the (http_get W b)) b))
                           (extract_information W (the (http_get W b))
                              (initial_state\<lparr>fetched := [b], visited := {b}\<rparr>))"
    by auto
qed

text \<open>
  Claim C4. One page appends to \<open>mission_sentences\<close> its qualifying candidates (the
  stripped matches of the mission pattern that pass \<open>filter_valid_sentence\<close>) in ascending
  order of length, as many as still fit under the cap of 3, and drops the rest. So the list
  never holds more than 3 entries: not after the seed page, not after any job, not at the
  end of the crawl. Each call of \<open>extract_information\<close> runs as a whole here.
\<close>

theorem C4_mission_cap:
  "mission_sentences (extract_information W h st)
     = mission_sentences st
       @ take (3 - length (mission_sentences st))
           (sort_key length (map strip
              (filter (\<lambda>sentence. filter_valid_sentence sentence 10 200)
                 (findall mission_pattern (get_text W h)))))
   \<and> (length (mission_sentences st) \<le> 3 \<longrightarrow>
        length (mission_sentences (extract_information W h st)) \<le> 3
        \<and> length (mission_sentences (scrape_single_page W l b st)) \<le> 3)
   \<and> (\<forall>r. scrape_website W b = Inr r \<longrightarrow> length (mission_sentences (shared r)) \<le> 3)"
proof (intro conjI impI allI)
  show "mission_sentences (extract_information W h st)
     = mission_sentences st
       @ take (3 - length (mission_sentences st))
           (sort_key length (map strip
              (filter (\<lambda>sentence. filter_valid_sentence sentence 10 200)
                 (findall mission_pattern (get_text W h)))))"
    by (simp only: extract_missions append_missions_eq map_strip_sorted)
next
  assume "length (mission_sentences st) \<le> 3"
  then show "length (mission_sentences (extract_information W h st)) \<le> 3"
    by (rule extract_missions_le)
next
  assume "length (mission_sentences st) \<le> 3"
  then show "length (mission_sentences (scrape_single_page W l b st)) \<le> 3"
    by (rule single_missions)
next
  fix r assume r: "scrape_website W b = Inr r"
  have "length (mission_sentences (initial_state\<lparr>fetched := [b], visited := {b}\<rparr>)) \<le> 3"
    by (simp add: initial_state_def)
  then have "length (mission_sentences (extract_information W (the (http_get W b))
                              (initial_state\<lparr>fetched := [b], visited := {b}\<rparr>))) \<le> 3"
    by (rule extract_missions_le)
  then show "length (mission_sentences (shared r)) \<le> 3"
    unfolding crawl_shared(3) [OF r] by (rule jobs_missions)
qed

text \<open>
  Claim C1, as the code has it. One job is submitted for every discovered link. Inside its
  job a link is fetched only if it is not yet visited and the seed URL occurs in it as a
  substring; otherwise the job does nothing. After the crawl the fetched URLs are the seed
  and the submitted links that contain the seed URL, and no URL is fetched twice.
\<close>

theorem C1_jobs_and_fetches:
  "fetched (scrape_single_page W l b st)
     = (if l \<notin> visited st \<and> str_in b l then fetched st @ [l] else fetched st)
   \<and> (\<forall>r. scrape_website W b = Inr r \<longrightarrow>
          futures r = set_order W (find_links W (the (http_get W b)) b)
          \<and> distinct (fetched (shared r))
          \<and> set (fetched (shared r)) = insert b {l \<in> set (futures r). str_in b l})"
proof (intro conjI impI allI)
  show "fetched (scrape_single_page W l b st)
     = (if l \<notin> visited st \<and> str_in b l then fetched st @ [l] else fetched st)"
    by (rule single_fetched)
next
  fix r assume r: "scrape_website W b = Inr r"
  show "futures r = set_order W (find_links W (the (http_get W b)) b)"
    by (rule crawl_shared(2) [OF r])
  let ?s = "extract_information W (the (http_get W b))
              (initial_state\<lparr>fetched := [b], visited := {b}\<rparr>)"
  have s: "set (fetched ?s) = visited ?s" "distinct (fetched ?s)" "visited ?s = {b}"
    by (simp_all add: extract_fetched extract_visited)
  from jobs_fetched [OF s(1) s(2), of W b "futures r"]
  have j: "set (fetched (shared r)) = visited (shared r)" "distinct (fetched (shared r))"
    unfolding crawl_shared(3) [OF r] crawl_shared(2) [OF r] by simp_all
  show "distinct (fetched (shared r))" by (rule j(2))
  have "visited (shared r) = {b} \<union> {l \<in> set (futures r). str_in b l}"
    unfolding crawl_shared(3) [OF r] crawl_shared(2) [OF r] jobs_visited s(3) ..
  with j(1) show "set (fetched (shared r)) = insert b {l \<in> set (futures r). str_in b l}"
    by simp
qed

text \<open>
  Claim C8. When the fetch of the seed page fails (no response, or an empty one) the crawl
  returns \<open>Main_page_not_loaded\<close> and there is no report; in every other case there is a
  report, whatever the fetches of the links do. A job whose fetch fails leaves the email
  set, the phone set, the mission sentences and the keyword tally as they were; its link
  stays marked as visited, as it was before the fetch.
\<close>

theorem C8_seed_failure_only:
  "(\<not> truthy (http_get W b) \<longrightarrow> scrape_website W b = Inl Main_page_not_loaded)
   \<and> (truthy (http_get W b) \<longrightarrow> (\<exists>r. scrape_website W b = Inr r))
   \<and> (\<not> truthy (http_get W l) \<longrightarrow>
        emails (scrape_single_page W l b st) = emails st
        \<and> phones (scrape_single_page W l b st) = phones st
        \<and> mission_sentences (scrape_single_page W l b st) = mission_sentences st
        \<and> keyword_counter (scrape_single_page W l b st) = keyword_counter st)"
proof (intro conjI impI)
  assume "\<not> truthy (http_get W b)"
  then show "scrape_website W b = Inl Main_page_not_loaded" by (rule crawl_fail)
next
  assume "truthy (http_get W b)"
  from crawl_ok [OF this] show "\<exists>r. scrape_website W b = Inr r" by blast
next
  assume f: "\<not> truthy (http_get W l)"
  show "emails (scrape_single_page W l b st) = emails st"
    by (simp add: single_failed [OF f])
  show "phones (scrape_single_page W l b st) = phones st"
    by (simp add: single_failed [OF f])
  show "mission_sentences (scrape_single_page W l b st) = mission_sentences st"
    by (simp add: single_failed [OF f])
  show "keyword_counter (scrape_single_page W l b st) = keyword_counter st"
    by (simp add: single_failed [OF f])
qed

text \<open>
  Claim C10. The tally starts empty; every key in it is one of the seven category names,
  every count in it is positive, and the classifier, a page and a job only ever add keys and
  raise counts. So the tally that the ranking step reads has positive counts over category
  names only.
\<close>

theorem C10_tally_invariant:
  "category_names = [''environment'', ''animal'', ''education'', ''healthcare'', ''poverty'',
                     ''human_rights'', ''children'']
   \<and> tally_ok (keyword_counter initial_state)
   \<and> (tally_ok kc \<longrightarrow> tally_ok (classify_cause_and_count s kc)
                        \<and> tally_le kc (classify_cause_and_count s kc))
   \<and> (tally_ok (keyword_counter st) \<longrightarrow>
        tally_ok (keyword_counter (extract_information W h st))
        \<and> tally_le (keyword_counter st) (keyword_counter (extract_information W h st))
        \<and> tally_ok (keyword_counter (scrape_single_page W l b st))
        \<and> tally_le (keyword_counter st) (keyword_counter (scrape_single_page W l b st)))
   \<and> (\<forall>r. scrape_website W b = Inr r \<longrightarrow> tally_ok (keyword_counter (shared r)))"
proof (intro conjI impI allI)
  show "category_names = [''environment'', ''animal'', ''education'', ''healthcare'',
          ''poverty'', ''human_rights'', ''children'']"
    by (simp add: category_names_def categories_def)
  show i: "tally_ok (keyword_counter initial_state)"
    by (simp add: initial_state_def tally_ok_def)
  show "tally_le kc (classify_cause_and_count s kc)" by (rule classify_le)
  show "tally_le (keyword_counter st) (keyword_counter (extract_information W h st))"
    by (rule extract_le)
  show "tally_le (keyword_counter st) (keyword_counter (scrape_single_page W l b st))"
    by (rule single_le)
  {
    assume "tally_ok kc"
    then show "tally_ok (classify_cause_and_count s kc)" by (rule classify_ok)
  }
  {
    assume k: "tally_ok (keyword_counter st)"
    then show "tally_ok (keyword_counter (extract_information W h st))" by (rule extract_ok)
    from k show "tally_ok (keyword_counter (scrape_single_page W l b st))" by (rule single_ok)
  }
  fix r assume r: "scrape_website W b = Inr r"
  have "tally_ok (keyword_counter (initial_state\<lparr>fetched := [b], visited := {b}\<rparr>))"
    using i by simp
  then have "tally_ok (keyword_counter (extract_information W (the (http_get W b))
                              (initial_state\<lparr>fetched := [b], visited := {b}\<rparr>)))"
    by (rule extract_ok)
  then show "tally_ok (keyword_counter (shared r))"
    unfolding crawl_shared(3) [OF r] by (rule jobs_ok)
qed

end
